theory Spec2Isabelle
  imports Complex_Main
begin

section \<open>Event detection and lag extraction (hydro\_analysis\_utils.py)\<close>

text \<open>
  The function \<^verbatim>\<open>find_events_and_lags\<close> takes a data frame indexed by date with a
  precipitation and a discharge column. Dates are whole days, modelled as \<open>int\<close>.
  Column values are floating-point numbers in the source; they are modelled as exact
  reals, with \<open>None\<close> standing for NaN (a missing value in the input, the empty
  quantile for the threshold).
\<close>

subsection \<open>Data\<close>

text \<open>A row of the input frame, restricted to the two columns the function selects.\<close>

record df_row =
  idx :: int
  precip_raw :: "real option"
  discharge_raw :: "real option"

text \<open>A row of \<^verbatim>\<open>working\<close>: both values present.\<close>

record row =
  date :: int
  precip :: real
  discharge :: real

text \<open>The dictionary appended to \<^verbatim>\<open>events\<close>.\<close>

record event =
  event_date :: int
  peak_date :: int
  lag_days :: int
  peak_discharge :: real
  rain_amount :: real
  n_sig_days_in_window :: nat

text \<open>
  Exceptions the function can surface. None is raised by the function's own text:
  \<open>ValueError\<close> comes from the quantile routine (percentile outside \<open>[0, 1]\<close>) and
  from \<^verbatim>\<open>idxmax\<close> on an empty series, \<open>KeyError\<close> from a label lookup that
  finds nothing, \<open>OutOfBoundsTimedelta\<close> from \<^verbatim>\<open>pd.Timedelta(days=n)\<close> when
  the day count does not fit, and \<open>OutOfBoundsDatetime\<close> from adding a time delta to a
  timestamp when the sum does not fit.
\<close>

datatype error = ValueError | KeyError | OutOfBoundsTimedelta | OutOfBoundsDatetime

subsection \<open>Library operations used by the function\<close>

text \<open>\<^verbatim>\<open>df[[precip_col, 'Discharge (cfs)']].dropna()\<close>: rows with a NaN in
  either column are removed, the order of the others is kept.\<close>

fun dropna :: "df_row list \<Rightarrow> row list" where
  "dropna [] = []"
| "dropna (r # rs) =
     (case precip_raw r of
        None \<Rightarrow> dropna rs
      | Some p \<Rightarrow>
          (case discharge_raw r of
             None \<Rightarrow> dropna rs
           | Some d \<Rightarrow> \<lparr>date = idx r, precip = p, discharge = d\<rparr> # dropna rs))"

text \<open>Comparison \<^verbatim>\<open>a >= b\<close> of two floats: false as soon as one of them is NaN.\<close>

fun float_ge :: "real option \<Rightarrow> real option \<Rightarrow> bool" where
  "float_ge (Some a) (Some b) = (b \<le> a)"
| "float_ge _ _ = False"

text \<open>Comparison \<^verbatim>\<open>a <= b\<close> of two floats, with the same convention.\<close>

definition float_le :: "real option \<Rightarrow> real option \<Rightarrow> bool" where
  "float_le a b = float_ge b a"

text \<open>
  \<^verbatim>\<open>Series.quantile(q)\<close> with the default linear interpolation. The percentile is
  validated first (\<open>ValueError\<close> outside \<open>[0, 1]\<close>); an empty series gives NaN;
  otherwise the value at the virtual index \<open>(n - 1) * q\<close> of the sorted values is
  interpolated between its two neighbours.
\<close>

definition quantile :: "real list \<Rightarrow> real \<Rightarrow> error + real option" where
  "quantile xs q =
     (if \<not> (0 \<le> q \<and> q \<le> 1) then Inl ValueError
      else if xs = [] then Inr None
      else
        let s = sort xs;
            h = real (length xs - 1) * q;
            lo = nat \<lfloor>h\<rfloor>;
            hi = min (lo + 1) (length xs - 1);
            g = h - real lo
        in Inr (Some (s ! lo + (s ! hi - s ! lo) * g)))"

text \<open>\<^verbatim>\<open>working.loc[start:end]\<close> on a frame whose index is increasing: the rows
  whose label lies between the two bounds, both included.\<close>

definition loc_slice :: "row list \<Rightarrow> int \<Rightarrow> int \<Rightarrow> row list" where
  "loc_slice working start end = filter (\<lambda>r. start \<le> date r \<and> date r \<le> end) working"

text \<open>\<^verbatim>\<open>frame.loc[label, column]\<close> on a frame with unique labels: the row with
  that label, \<open>KeyError\<close> when there is none.\<close>

fun loc_at :: "row list \<Rightarrow> int \<Rightarrow> error + row" where
  "loc_at [] d = Inl KeyError"
| "loc_at (r # rs) d = (if date r = d then Inr r else loc_at rs d)"

text \<open>\<^verbatim>\<open>idxmax\<close>: the label of the first occurrence of the maximum. The helper
  carries the best row seen so far; only a strictly larger value replaces it.\<close>

fun first_max :: "row \<Rightarrow> row list \<Rightarrow> row" where
  "first_max best [] = best"
| "first_max best (r # rs) =
     first_max (if discharge best < discharge r then r else best) rs"

fun idxmax :: "row list \<Rightarrow> error + int" where
  "idxmax [] = Inl ValueError"
| "idxmax (r # rs) = Inr (date (first_max r rs))"

text \<open>
  Timestamps and time deltas are 64-bit counts of nanoseconds. A whole number of days
  fits, as a time delta or as a midnight timestamp counted from 1970-01-01, exactly when
  its absolute value is at most 106751 (the last timestamp is 2262-04-11 23:47:16).
\<close>

definition max_days :: int where
  "max_days = 106751"

definition days_fit :: "int \<Rightarrow> bool" where
  "days_fit n = (- max_days \<le> n \<and> n \<le> max_days)"

text \<open>\<^verbatim>\<open>pd.Timedelta(days=n)\<close>.\<close>

definition timedelta_days :: "int \<Rightarrow> error + int" where
  "timedelta_days n = (if days_fit n then Inr n else Inl OutOfBoundsTimedelta)"

text \<open>\<^verbatim>\<open>date + pd.Timedelta(days=n)\<close>: the time delta is built first, then added.\<close>

definition add_days :: "int \<Rightarrow> int \<Rightarrow> error + int" where
  "add_days d n =
     (case timedelta_days n of
        Inl e \<Rightarrow> Inl e
      | Inr td \<Rightarrow> if days_fit (d + td) then Inr (d + td) else Inl OutOfBoundsDatetime)"

subsection \<open>The function\<close>

text \<open>
  First loop (lines 25 to 33): the scan over \<^verbatim>\<open>working[precip_col].items()\<close>.
  The state is the list \<^verbatim>\<open>event_starts\<close> and the cursor \<^verbatim>\<open>skip_until\<close>.
  An exception of the date arithmetic of line 33 ends the loop.
\<close>

fun scan_starts ::
  "int \<Rightarrow> real option \<Rightarrow> int list \<Rightarrow> int option \<Rightarrow> row list \<Rightarrow> error + int list" where
  "scan_starts min_gap_days threshold event_starts skip_until [] = Inr event_starts"
| "scan_starts min_gap_days threshold event_starts skip_until (r # rs) =
     (if (case skip_until of None \<Rightarrow> False | Some s \<Rightarrow> date r \<le> s)
      then scan_starts min_gap_days threshold event_starts skip_until rs
      else if float_ge (Some (precip r)) threshold
      then (case add_days (date r) min_gap_days of
              Inl e \<Rightarrow> Inl e
            | Inr s \<Rightarrow>
                scan_starts min_gap_days threshold (event_starts @ [date r]) (Some s) rs)
      else scan_starts min_gap_days threshold event_starts skip_until rs)"

text \<open>The number of significant days of a window (line 43).\<close>

definition n_sig_of :: "real option \<Rightarrow> row list \<Rightarrow> nat" where
  "n_sig_of threshold window =
     length (filter (\<lambda>r. float_ge (Some (precip r)) threshold) window)"

text \<open>
  Second loop (lines 35 to 58): one pass over \<^verbatim>\<open>event_starts\<close>, appending to
  \<^verbatim>\<open>events\<close>. An exception of the date arithmetic of line 38 or of a lookup ends
  the loop.
\<close>

fun build_events ::
  "int \<Rightarrow> bool \<Rightarrow> real option \<Rightarrow> row list \<Rightarrow> event list \<Rightarrow> int list \<Rightarrow> error + event list" where
  "build_events window_days require_single_day threshold working events [] = Inr events"
| "build_events window_days require_single_day threshold working events (start # starts) =
     (case add_days start window_days of
        Inl e \<Rightarrow> Inl e
      | Inr end \<Rightarrow>
          (let window = loc_slice working start end
           in if window = []
              then build_events window_days require_single_day threshold working events starts
              else
                let n_sig = n_sig_of threshold window
                in if require_single_day \<and> n_sig > 1
                   then build_events window_days require_single_day threshold working events
                          starts
                   else
                     (case idxmax window of
                        Inl e \<Rightarrow> Inl e
                      | Inr pk \<Rightarrow>
                          (case loc_at window pk of
                             Inl e \<Rightarrow> Inl e
                           | Inr peak_row \<Rightarrow>
                               (case loc_at working start of
                                  Inl e \<Rightarrow> Inl e
                                | Inr start_row \<Rightarrow>
                                    build_events window_days require_single_day threshold
                                      working
                                      (events @
                                        [\<lparr>event_date = start,
                                          peak_date = pk,
                                          lag_days = pk - start,
                                          peak_discharge = discharge peak_row,
                                          rain_amount = precip start_row,
                                          n_sig_days_in_window = n_sig\<rparr>])
                                      starts)))))"

text \<open>The threshold of line 23: the quantile of the strictly positive precipitation.\<close>

definition threshold_of :: "row list \<Rightarrow> real \<Rightarrow> error + real option" where
  "threshold_of working q = quantile (map precip (filter (\<lambda>r. 0 < precip r) working)) q"

text \<open>The list \<^verbatim>\<open>event_starts\<close> as it stands after the first loop.\<close>

definition event_starts_of :: "row list \<Rightarrow> real option \<Rightarrow> int \<Rightarrow> error + int list" where
  "event_starts_of working threshold min_gap_days =
     scan_starts min_gap_days threshold [] None working"

definition find_events_and_lags ::
  "df_row list \<Rightarrow> real \<Rightarrow> int \<Rightarrow> int \<Rightarrow> bool \<Rightarrow> error + (event list \<times> real option)" where
  "find_events_and_lags df q min_gap_days window_days require_single_day =
     (let working = dropna df
      in case threshold_of working q of
           Inl e \<Rightarrow> Inl e
         | Inr threshold \<Rightarrow>
             (case event_starts_of working threshold min_gap_days of
                Inl e \<Rightarrow> Inl e
              | Inr event_starts \<Rightarrow>
                  (case build_events window_days require_single_day threshold working []
                          event_starts of
                     Inl e \<Rightarrow> Inl e
                   | Inr events \<Rightarrow> Inr (events, threshold))))"

text \<open>
  The inputs the function is meant for: one row per day in increasing date order, a
  percentile strictly between 0 and 1, and non-negative day counts.
\<close>

definition valid_input :: "df_row list \<Rightarrow> real \<Rightarrow> int \<Rightarrow> int \<Rightarrow> bool" where
  "valid_input df q min_gap_days window_days =
     (sorted_wrt (<) (map idx df) \<and> 0 < q \<and> q < 1 \<and> 0 \<le> min_gap_days \<and> 0 \<le> window_days)"

text \<open>
  The date arithmetic of the two loops stays in range: both day counts fit a time delta,
  and every date of the frame moved by either of them is still a timestamp.
\<close>

definition days_in_range :: "df_row list \<Rightarrow> int \<Rightarrow> int \<Rightarrow> bool" where
  "days_in_range df min_gap_days window_days =
     (days_fit min_gap_days \<and> days_fit window_days
      \<and> list_all (\<lambda>r. days_fit (idx r + min_gap_days)) df
      \<and> list_all (\<lambda>r. days_fit (idx r + window_days)) df)"

subsection \<open>Auxiliary notions for the proofs\<close>

text \<open>What the body of the second loop establishes about an event it appends.\<close>

definition emitted_from :: "int \<Rightarrow> bool \<Rightarrow> real option \<Rightarrow> row list \<Rightarrow> event \<Rightarrow> bool" where
  "emitted_from w rsd t wk e =
     (let window = loc_slice wk (event_date e) (event_date e + w)
      in window \<noteq> []
         \<and> n_sig_days_in_window e = n_sig_of t window
         \<and> \<not> (rsd \<and> 1 < n_sig_days_in_window e)
         \<and> idxmax window = Inr (peak_date e)
         \<and> lag_days e = peak_date e - event_date e
         \<and> (\<exists>pr. loc_at window (peak_date e) = Inr pr \<and> peak_discharge e = discharge pr)
         \<and> (\<exists>sr. loc_at wk (event_date e) = Inr sr \<and> rain_amount e = precip sr))"

text \<open>The two \<^verbatim>\<open>continue\<close> branches of the second loop.\<close>

definition dropped :: "int \<Rightarrow> bool \<Rightarrow> real option \<Rightarrow> row list \<Rightarrow> int \<Rightarrow> bool" where
  "dropped w rsd t wk s =
     (loc_slice wk s (s + w) = [] \<or> (rsd \<and> 1 < n_sig_of t (loc_slice wk s (s + w))))"

subsection \<open>Sample frames\<close>

text \<open>
  Four days of data with a gap before the last one. The positive precipitation values
  are 6, 1 and 9, so the median is 6. Days 2 and 3 share the largest discharge.
\<close>

definition frame_gap :: "df_row list" where
  "frame_gap =
     [\<lparr>idx = 1, precip_raw = Some 6, discharge_raw = Some 3\<rparr>,
      \<lparr>idx = 2, precip_raw = Some 0, discharge_raw = Some 7\<rparr>,
      \<lparr>idx = 3, precip_raw = Some 1, discharge_raw = Some 7\<rparr>,
      \<lparr>idx = 20, precip_raw = Some 9, discharge_raw = Some 1\<rparr>]"

text \<open>One dry day, and one day whose precipitation is missing.\<close>

definition frame_dry :: "df_row list" where
  "frame_dry = [\<lparr>idx = 1, precip_raw = Some 0, discharge_raw = Some 10\<rparr>]"

definition frame_missing :: "df_row list" where
  "frame_missing = [\<lparr>idx = 1, precip_raw = None, discharge_raw = Some 3\<rparr>]"

text \<open>The two events of \<open>frame_gap\<close> for the median threshold, a gap of one day and a
  window of five days.\<close>

definition event_day1 :: event where
  "event_day1 = \<lparr>event_date = 1, peak_date = 2, lag_days = 1, peak_discharge = 7,
     rain_amount = 6, n_sig_days_in_window = 1\<rparr>"

definition event_day20 :: event where
  "event_day20 = \<lparr>event_date = 20, peak_date = 20, lag_days = 0, peak_discharge = 1,
     rain_amount = 9, n_sig_days_in_window = 1\<rparr>"

text \<open>Two days that both reach the median threshold 9, the second inside the window of
  the first; under the single-day rule only the second gives an event.\<close>

definition frame_twin :: "df_row list" where
  "frame_twin =
     [\<lparr>idx = 1, precip_raw = Some 9, discharge_raw = Some 2\<rparr>,
      \<lparr>idx = 3, precip_raw = Some 9, discharge_raw = Some 4\<rparr>]"

definition event_twin3 :: event where
  "event_twin3 = \<lparr>event_date = 3, peak_date = 3, lag_days = 0, peak_discharge = 4,
     rain_amount = 9, n_sig_days_in_window = 1\<rparr>"

section \<open>Properties of the library operations\<close>

lemma dropna_dates_subset: "date ` set (dropna df) \<subseteq> idx ` set df"
  by (induction df) (auto split: option.splits)

lemma dropna_sorted:
  "sorted_wrt (<) (map idx df) \<Longrightarrow> sorted_wrt (<) (map date (dropna df))"
proof (induction df)
  case Nil
  then show ?case by simp
next
  case (Cons r rs)
  have sub: "date ` set (dropna rs) \<subseteq> idx ` set rs" by (rule dropna_dates_subset)
  from Cons show ?case using sub by (auto split: option.splits)
qed

lemma sorted_dates_inj:
  "sorted_wrt (<) (map date rs) \<Longrightarrow> a \<in> set rs \<Longrightarrow> b \<in> set rs \<Longrightarrow> date a = date b \<Longrightarrow> a = b"
proof -
  assume s: "sorted_wrt (<) (map date rs)" and a: "a \<in> set rs" and b: "b \<in> set rs" and e: "date a = date b"
  from s have "distinct (map date rs)" by (simp add: strict_sorted_iff)
  then have "inj_on date (set rs)" by (simp add: distinct_map)
  with a b e show "a = b" by (auto dest: inj_onD)
qed

lemma loc_at_Inr: "loc_at rs d = Inr r \<Longrightarrow> r \<in> set rs \<and> date r = d"
  by (induction rs) (auto split: if_splits)

lemma loc_at_total: "d \<in> date ` set rs \<Longrightarrow> \<exists>r. loc_at rs d = Inr r"
  by (induction rs) auto

lemma first_max_mem: "first_max b rs \<in> set (b # rs)"
  by (induction rs arbitrary: b) auto

lemma idxmax_mem: "idxmax win = Inr pk \<Longrightarrow> pk \<in> date ` set win"
proof (cases win)
  case Nil
  assume "idxmax win = Inr pk"
  with Nil show ?thesis by simp
next
  case (Cons r rs)
  assume "idxmax win = Inr pk"
  with Cons have "pk = date (first_max r rs)" by simp
  moreover have "first_max r rs \<in> set win" using first_max_mem [of r rs] Cons by simp
  ultimately show ?thesis by blast
qed

lemma idxmax_total: "win \<noteq> [] \<Longrightarrow> \<exists>pk. idxmax win = Inr pk"
  by (cases win) auto

lemma first_max_ge: "x \<in> set (b # rs) \<Longrightarrow> discharge x \<le> discharge (first_max b rs)"
proof (induction rs arbitrary: b x)
  case Nil
  then show ?case by simp
next
  case (Cons r rs)
  let ?b = "if discharge b < discharge r then r else b"
  have b': "discharge b \<le> discharge ?b" "discharge r \<le> discharge ?b" by auto
  have top: "discharge ?b \<le> discharge (first_max ?b rs)" by (rule Cons.IH) simp
  from Cons.prems have "x = b \<or> x = r \<or> x \<in> set rs" by auto
  then show ?case
  proof (elim disjE)
    assume "x = b"
    with b'(1) top show ?thesis by simp
  next
    assume "x = r"
    with b'(2) top show ?thesis by simp
  next
    assume "x \<in> set rs"
    then have "x \<in> set (?b # rs)" by simp
    from Cons.IH [OF this] show ?thesis by simp
  qed
qed

lemma first_max_earliest:
  "sorted_wrt (<) (map date (b # rs)) \<Longrightarrow> x \<in> set (b # rs) \<Longrightarrow>
     discharge x = discharge (first_max b rs) \<Longrightarrow> date (first_max b rs) \<le> date x"
proof (induction rs arbitrary: b x)
  case Nil
  then show ?case by simp
next
  case (Cons r rs)
  let ?b = "if discharge b < discharge r then r else b"
  let ?m = "first_max ?b rs"
  have m: "first_max b (r # rs) = ?m" by simp
  from Cons.prems(1) have srt: "sorted_wrt (<) (map date (?b # rs))" and br: "date b < date r"
    by auto
  have IH: "date ?m \<le> date y" if "y \<in> set (?b # rs)" "discharge y = discharge ?m" for y
    using Cons.IH [OF srt that(1)] that(2) by simp
  have bm: "discharge ?b \<le> discharge ?m" by (rule first_max_ge) simp
  from Cons.prems(3) have eq: "discharge x = discharge ?m" by simp
  show ?case
  proof (cases "x \<in> set (?b # rs)")
    case True
    from IH [OF True eq] show ?thesis by simp
  next
    case False
    with Cons.prems(2) have other: "(discharge b < discharge r \<and> x = b) \<or> (\<not> discharge b < discharge r \<and> x = r)"
      by (auto split: if_splits)
    then show ?thesis
    proof
      assume "discharge b < discharge r \<and> x = b"
      with bm eq show ?thesis by simp
    next
      assume a: "\<not> discharge b < discharge r \<and> x = r"
      with bm eq have "discharge b = discharge ?m" by simp
      moreover from a have "b \<in> set (?b # rs)" by simp
      ultimately have "date ?m \<le> date b" using IH by blast
      with br a show ?thesis by simp
    qed
  qed
qed

lemma idxmax_row:
  assumes "idxmax win = Inr pk"
  shows "\<exists>m \<in> set win. date m = pk \<and> (\<forall>x \<in> set win. discharge x \<le> discharge m)
           \<and> (sorted_wrt (<) (map date win) \<longrightarrow>
                (\<forall>x \<in> set win. discharge x = discharge m \<longrightarrow> pk \<le> date x))"
proof (cases win)
  case Nil
  with assms show ?thesis by simp
next
  case (Cons r rs)
  let ?m = "first_max r rs"
  from assms Cons have pk: "pk = date ?m" by simp
  have "?m \<in> set win" using first_max_mem [of r rs] Cons by simp
  moreover have "\<forall>x \<in> set win. discharge x \<le> discharge ?m"
    using first_max_ge [of _ r rs] Cons by blast
  moreover have "sorted_wrt (<) (map date win) \<longrightarrow>
      (\<forall>x \<in> set win. discharge x = discharge ?m \<longrightarrow> pk \<le> date x)"
    using first_max_earliest [of r rs] Cons pk by blast
  ultimately show ?thesis using pk by blast
qed

lemma loc_slice_mem:
  "r \<in> set (loc_slice wk s e) \<longleftrightarrow> r \<in> set wk \<and> s \<le> date r \<and> date r \<le> e"
  by (auto simp add: loc_slice_def)

lemma loc_slice_sorted:
  "sorted_wrt (<) (map date wk) \<Longrightarrow> sorted_wrt (<) (map date (loc_slice wk s e))"
  by (simp add: loc_slice_def sorted_wrt_map sorted_wrt_filter)

subsection \<open>The interpolated quantile\<close>

lemma nat_floor_bounds:
  fixes h :: real
  assumes "0 \<le> h"
  shows "real (nat \<lfloor>h\<rfloor>) \<le> h" and "h < real (nat \<lfloor>h\<rfloor>) + 1"
proof -
  from assms have "0 \<le> \<lfloor>h\<rfloor>" by simp
  then have "real (nat \<lfloor>h\<rfloor>) = of_int \<lfloor>h\<rfloor>" by simp
  then show "real (nat \<lfloor>h\<rfloor>) \<le> h" and "h < real (nat \<lfloor>h\<rfloor>) + 1" by linarith+
qed

lemma nat_floor_le_bound:
  fixes h :: real
  assumes "0 \<le> h" and "h \<le> real m"
  shows "nat \<lfloor>h\<rfloor> \<le> m"
proof -
  have "real (nat \<lfloor>h\<rfloor>) \<le> real m" using nat_floor_bounds(1) [OF assms(1)] assms(2) by linarith
  then show ?thesis by simp
qed

lemma interpolate_between:
  fixes s :: "real list" and h :: real
  assumes "sorted s" and "s \<noteq> []" and "0 \<le> h" and "h \<le> real (length s - 1)"
  shows "s ! nat \<lfloor>h\<rfloor>
           \<le> s ! nat \<lfloor>h\<rfloor>
               + (s ! min (nat \<lfloor>h\<rfloor> + 1) (length s - 1) - s ! nat \<lfloor>h\<rfloor>) * (h - real (nat \<lfloor>h\<rfloor>))"
    and "s ! nat \<lfloor>h\<rfloor>
           + (s ! min (nat \<lfloor>h\<rfloor> + 1) (length s - 1) - s ! nat \<lfloor>h\<rfloor>) * (h - real (nat \<lfloor>h\<rfloor>))
         \<le> s ! min (nat \<lfloor>h\<rfloor> + 1) (length s - 1)"
proof -
  let ?lo = "nat \<lfloor>h\<rfloor>"
  let ?hi = "min (?lo + 1) (length s - 1)"
  let ?g = "h - real ?lo"
  from assms(2) have len: "0 < length s" by simp
  have lo: "?lo \<le> length s - 1" by (rule nat_floor_le_bound [OF assms(3,4)])
  then have lohi: "?lo \<le> ?hi" by simp
  have "?hi \<le> length s - 1" by simp
  with len have hi: "?hi < length s" by linarith
  have d: "0 \<le> s ! ?hi - s ! ?lo" using sorted_nth_mono [OF assms(1) lohi hi] by simp
  have g: "0 \<le> ?g" "?g \<le> 1" using nat_floor_bounds [OF assms(3)] by linarith+
  show "s ! ?lo \<le> s ! ?lo + (s ! ?hi - s ! ?lo) * ?g"
    using d g(1) by simp
  have "(s ! ?hi - s ! ?lo) * ?g \<le> (s ! ?hi - s ! ?lo) * 1"
    by (rule mult_left_mono [OF g(2) d])
  then show "s ! ?lo + (s ! ?hi - s ! ?lo) * ?g \<le> s ! ?hi" by simp
qed

lemma interpolate_mono:
  fixes s :: "real list" and h1 h2 :: real
  assumes "sorted s" and "s \<noteq> []" and "0 \<le> h1" and "h1 \<le> h2" and "h2 \<le> real (length s - 1)"
  shows "s ! nat \<lfloor>h1\<rfloor>
           + (s ! min (nat \<lfloor>h1\<rfloor> + 1) (length s - 1) - s ! nat \<lfloor>h1\<rfloor>) * (h1 - real (nat \<lfloor>h1\<rfloor>))
         \<le> s ! nat \<lfloor>h2\<rfloor>
           + (s ! min (nat \<lfloor>h2\<rfloor> + 1) (length s - 1) - s ! nat \<lfloor>h2\<rfloor>) * (h2 - real (nat \<lfloor>h2\<rfloor>))"
proof -
  let ?l1 = "nat \<lfloor>h1\<rfloor>" and ?l2 = "nat \<lfloor>h2\<rfloor>"
  let ?u1 = "min (?l1 + 1) (length s - 1)" and ?u2 = "min (?l2 + 1) (length s - 1)"
  from assms have h2: "0 \<le> h2" and h1: "h1 \<le> real (length s - 1)" by linarith+
  from assms(2) have len: "0 < length s" by simp
  have l2: "?l2 \<le> length s - 1" by (rule nat_floor_le_bound [OF h2 assms(5)])
  have l12: "?l1 \<le> ?l2" using assms(4) by (simp add: floor_mono nat_mono)
  show ?thesis
  proof (cases "?l1 = ?l2")
    case True
    have lohi: "?l2 \<le> ?u2" using l2 by simp
    have "?u2 \<le> length s - 1" by simp
    with len have hi: "?u2 < length s" by linarith
    have d: "0 \<le> s ! ?u2 - s ! ?l2" using sorted_nth_mono [OF assms(1) lohi hi] by simp
    have "(s ! ?u2 - s ! ?l2) * (h1 - real ?l2) \<le> (s ! ?u2 - s ! ?l2) * (h2 - real ?l2)"
      by (rule mult_left_mono [OF _ d]) (use assms(4) in simp)
    with True show ?thesis by simp
  next
    case False
    with l12 have lt: "?l1 + 1 \<le> ?l2" by simp
    with l2 have u1: "?u1 = ?l1 + 1" by simp
    have "s ! ?u1 \<le> s ! ?l2"
      unfolding u1 by (rule sorted_nth_mono [OF assms(1) lt]) (use l2 len in linarith)
    with interpolate_between(2) [OF assms(1,2,3) h1] interpolate_between(1) [OF assms(1,2) h2 assms(5)]
    show ?thesis by linarith
  qed
qed

lemma quantile_mono:
  assumes "xs \<noteq> []" and "0 \<le> q1" and "q1 \<le> q2" and "q2 \<le> 1"
  shows "\<exists>t1 t2. quantile xs q1 = Inr (Some t1) \<and> quantile xs q2 = Inr (Some t2) \<and> t1 \<le> t2"
proof -
  let ?s = "sort xs"
  let ?n = "real (length xs - 1)"
  have "?s \<noteq> []" using assms(1) by (metis length_0_conv length_sort)
  then have s: "sorted ?s" "?s \<noteq> []" "length ?s = length xs" by simp_all
  have n: "0 \<le> ?n" by simp
  have a: "0 \<le> ?n * q1" using assms(2) by simp
  have b: "?n * q1 \<le> ?n * q2" by (rule mult_left_mono [OF assms(3) n])
  have "?n * q2 \<le> ?n * 1" by (rule mult_left_mono [OF assms(4) n])
  then have c: "?n * q2 \<le> real (length ?s - 1)" by simp
  from interpolate_mono [OF s(1,2) a b c] assms show ?thesis
    by (simp add: quantile_def Let_def)
qed

section \<open>Properties of the two loops\<close>

subsection \<open>Date arithmetic\<close>

lemma add_days_Inr:
  "add_days d n = Inr s \<Longrightarrow> s = d + n \<and> days_fit n \<and> days_fit (d + n)"
  by (auto simp add: add_days_def timedelta_days_def split: if_splits)

lemma add_days_fit: "days_fit n \<Longrightarrow> days_fit (d + n) \<Longrightarrow> add_days d n = Inr (d + n)"
  by (simp add: add_days_def timedelta_days_def)

lemma add_days_Inl:
  "add_days d n = Inl e \<Longrightarrow> e = OutOfBoundsTimedelta \<or> e = OutOfBoundsDatetime"
  by (auto simp add: add_days_def timedelta_days_def split: if_splits)

subsection \<open>The scan for event starts\<close>

lemma scan_starts_acc:
  "scan_starts g t acc sk rs =
     (case scan_starts g t [] sk rs of Inl e \<Rightarrow> Inl e | Inr ss \<Rightarrow> Inr (acc @ ss))"
proof (induction rs arbitrary: acc sk)
  case Nil
  then show ?case by simp
next
  case (Cons r rs)
  show ?case
  proof (cases "case sk of None \<Rightarrow> False | Some s \<Rightarrow> date r \<le> s")
    case True
    then show ?thesis using Cons [of acc sk] by simp
  next
    case noskip: False
    show ?thesis
    proof (cases "float_ge (Some (precip r)) t")
      case False
      with noskip show ?thesis using Cons [of acc sk] by simp
    next
      case True
      show ?thesis
      proof (cases "add_days (date r) g")
        case (Inl e)
        with noskip True show ?thesis by simp
      next
        case (Inr s)
        with noskip True show ?thesis
          using Cons [of "acc @ [date r]" "Some s"] Cons [of "[date r]" "Some s"]
          by (simp split: sum.splits)
      qed
    qed
  qed
qed

lemma scan_starts_Cons:
  "scan_starts g t [] sk (r # rs) =
     (if (case sk of None \<Rightarrow> False | Some s \<Rightarrow> date r \<le> s)
      then scan_starts g t [] sk rs
      else if float_ge (Some (precip r)) t
      then (case add_days (date r) g of
              Inl e \<Rightarrow> Inl e
            | Inr s \<Rightarrow>
                (case scan_starts g t [] (Some s) rs of
                   Inl e \<Rightarrow> Inl e
                 | Inr ss \<Rightarrow> Inr (date r # ss)))
      else scan_starts g t [] sk rs)"
proof (cases "add_days (date r) g")
  case (Inl e)
  then show ?thesis by simp
next
  case (Inr s)
  then show ?thesis using scan_starts_acc [of g t "[date r]" "Some s" rs]
    by (cases "scan_starts g t [] (Some s) rs") simp_all
qed

text \<open>The three ways in which the scan of a non-empty frame returns a list.\<close>

lemma scan_starts_Cons_Inr:
  assumes "scan_starts g t [] sk (r # rs) = Inr ss"
  shows "scan_starts g t [] sk rs = Inr ss
         \<or> (\<not> (case sk of None \<Rightarrow> False | Some s \<Rightarrow> date r \<le> s)
            \<and> float_ge (Some (precip r)) t
            \<and> (\<exists>ss'. ss = date r # ss' \<and> days_fit g \<and> days_fit (date r + g)
                 \<and> scan_starts g t [] (Some (date r + g)) rs = Inr ss'))"
proof (cases "\<not> (case sk of None \<Rightarrow> False | Some s \<Rightarrow> date r \<le> s)
              \<and> float_ge (Some (precip r)) t")
  case False
  with assms show ?thesis unfolding scan_starts_Cons by (auto split: if_splits)
next
  case True
  with assms have a: "(case add_days (date r) g of
              Inl e \<Rightarrow> Inl e
            | Inr s \<Rightarrow>
                (case scan_starts g t [] (Some s) rs of
                   Inl e \<Rightarrow> Inl e
                 | Inr ss \<Rightarrow> Inr (date r # ss))) = Inr ss"
    unfolding scan_starts_Cons by simp
  then obtain s where s: "add_days (date r) g = Inr s" by (cases "add_days (date r) g") auto
  from add_days_Inr [OF s] have s': "s = date r + g" "days_fit g" "days_fit (date r + g)"
    by simp_all
  from a s obtain ss' where "scan_starts g t [] (Some s) rs = Inr ss'" "ss = date r # ss'"
    by (cases "scan_starts g t [] (Some s) rs") auto
  with True s' show ?thesis by blast
qed

lemma scan_starts_mem:
  "scan_starts g t [] sk rs = Inr ss \<Longrightarrow> d \<in> set ss \<Longrightarrow>
     \<exists>r \<in> set rs. date r = d \<and> float_ge (Some (precip r)) t"
proof (induction rs arbitrary: sk ss)
  case Nil
  then show ?case by simp
next
  case (Cons r rs)
  from scan_starts_Cons_Inr [OF Cons.prems(1)] show ?case
  proof (elim disjE conjE exE)
    assume "scan_starts g t [] sk rs = Inr ss"
    from Cons.IH [OF this Cons.prems(2)] show ?thesis by auto
  next
    fix ss'
    assume ge: "float_ge (Some (precip r)) t" and ss: "ss = date r # ss'"
      and rest: "scan_starts g t [] (Some (date r + g)) rs = Inr ss'"
    from Cons.prems(2) ss have "d = date r \<or> d \<in> set ss'" by simp
    then show ?thesis
    proof
      assume "d = date r"
      with ge show ?thesis by simp
    next
      assume "d \<in> set ss'"
      from Cons.IH [OF rest this] show ?thesis by auto
    qed
  qed
qed

lemma scan_starts_after:
  "0 \<le> g \<Longrightarrow> scan_starts g t [] (Some s) rs = Inr ss \<Longrightarrow> d \<in> set ss \<Longrightarrow> s < d"
proof (induction rs arbitrary: s ss)
  case Nil
  then show ?case by simp
next
  case (Cons r rs)
  from scan_starts_Cons_Inr [OF Cons.prems(2)] show ?case
  proof (elim disjE conjE exE)
    assume "scan_starts g t [] (Some s) rs = Inr ss"
    from Cons.IH [OF Cons.prems(1) this Cons.prems(3)] show ?thesis .
  next
    fix ss'
    assume ns: "\<not> (case Some s of None \<Rightarrow> False | Some s \<Rightarrow> date r \<le> s)"
      and ss: "ss = date r # ss'"
      and rest: "scan_starts g t [] (Some (date r + g)) rs = Inr ss'"
    from ns have a: "s < date r" by simp
    from Cons.prems(3) ss have "d = date r \<or> d \<in> set ss'" by simp
    then show ?thesis
    proof
      assume "d = date r"
      with a show ?thesis by simp
    next
      assume "d \<in> set ss'"
      from Cons.IH [OF Cons.prems(1) rest this] have "date r + g < d" .
      with a Cons.prems(1) show ?thesis by linarith
    qed
  qed
qed

lemma scan_starts_successively:
  "0 \<le> g \<Longrightarrow> scan_starts g t [] sk rs = Inr ss \<Longrightarrow> successively (\<lambda>a b. g < b - a) ss"
proof (induction rs arbitrary: sk ss)
  case Nil
  then show ?case by simp
next
  case (Cons r rs)
  from scan_starts_Cons_Inr [OF Cons.prems(2)] show ?case
  proof (elim disjE conjE exE)
    assume "scan_starts g t [] sk rs = Inr ss"
    from Cons.IH [OF Cons.prems(1) this] show ?thesis .
  next
    fix ss'
    assume ss: "ss = date r # ss'"
      and rest: "scan_starts g t [] (Some (date r + g)) rs = Inr ss'"
    have tl: "successively (\<lambda>a b. g < b - a) ss'" by (rule Cons.IH [OF Cons.prems(1) rest])
    show ?thesis
    proof (cases ss')
      case Nil
      with ss show ?thesis by simp
    next
      case later: (Cons d ds)
      then have "d \<in> set ss'" by simp
      from scan_starts_after [OF Cons.prems(1) rest this] have "g < d - date r" by linarith
      with tl later ss show ?thesis by simp
    qed
  qed
qed

lemma scan_starts_nan: "scan_starts g None acc sk rs = Inr acc"
  by (induction rs arbitrary: sk) auto

lemma scan_starts_total:
  "days_fit g \<Longrightarrow> \<forall>r \<in> set rs. days_fit (date r + g) \<Longrightarrow>
     \<exists>ss. scan_starts g t [] sk rs = Inr ss"
proof (induction rs arbitrary: sk)
  case Nil
  then show ?case by simp
next
  case (Cons r rs)
  from Cons.prems have a: "add_days (date r) g = Inr (date r + g)" by (simp add: add_days_fit)
  from Cons have IH: "\<exists>ss. scan_starts g t [] sk' rs = Inr ss" for sk' by simp
  from IH [of sk] IH [of "Some (date r + g)"] a show ?case
    unfolding scan_starts_Cons by auto
qed

lemma scan_starts_Inl:
  "scan_starts g t [] sk rs = Inl e \<Longrightarrow> e = OutOfBoundsTimedelta \<or> e = OutOfBoundsDatetime"
proof (induction rs arbitrary: sk)
  case Nil
  then show ?case by simp
next
  case (Cons r rs)
  from Cons.prems have
    "scan_starts g t [] sk rs = Inl e
     \<or> add_days (date r) g = Inl e
     \<or> (\<exists>s. scan_starts g t [] (Some s) rs = Inl e)"
    unfolding scan_starts_Cons by (auto split: if_splits sum.splits)
  then show ?case using Cons.IH add_days_Inl by blast
qed

subsection \<open>The construction of the events\<close>

lemma build_events_acc:
  "build_events w rsd t wk acc ss =
     (case build_events w rsd t wk [] ss of Inl e \<Rightarrow> Inl e | Inr evs \<Rightarrow> Inr (acc @ evs))"
proof (induction ss arbitrary: acc)
  case Nil
  then show ?case by simp
next
  case (Cons s ss)
  show ?case
  proof (cases "add_days s w")
    case (Inl e)
    then show ?thesis by simp
  next
    case en: (Inr en)
    let ?win = "loc_slice wk s en"
    show ?thesis
    proof (cases "?win = [] \<or> (rsd \<and> 1 < n_sig_of t ?win)")
      case True
      then have "build_events w rsd t wk a (s # ss) = build_events w rsd t wk a ss" for a
        using en by (auto simp add: Let_def)
      then show ?thesis using Cons [of acc] by simp
    next
      case False
      show ?thesis
      proof (cases "idxmax ?win")
        case (Inl e)
        with False en show ?thesis by (auto simp add: Let_def)
      next
        case pk: (Inr pk)
        show ?thesis
        proof (cases "loc_at ?win pk")
          case (Inl e)
          with False en pk show ?thesis by (auto simp add: Let_def)
        next
          case pr: (Inr pr)
          show ?thesis
          proof (cases "loc_at wk s")
            case (Inl e)
            with False en pk pr show ?thesis by (auto simp add: Let_def)
          next
            case sr: (Inr sr)
            define ev where "ev = \<lparr>event_date = s, peak_date = pk, lag_days = pk - s,
              peak_discharge = discharge pr, rain_amount = precip sr,
              n_sig_days_in_window = n_sig_of t ?win\<rparr>"
            have step: "build_events w rsd t wk a (s # ss) = build_events w rsd t wk (a @ [ev]) ss"
              for a
              using False en pk pr sr by (auto simp add: Let_def ev_def)
            show ?thesis
              using step [of acc] step [of "[]"] Cons [of "acc @ [ev]"] Cons [of "[ev]"]
              by (simp split: sum.splits)
          qed
        qed
      qed
    qed
  qed
qed

lemma build_events_days:
  assumes "build_events w rsd t wk [] (s # ss) = Inr evs"
  shows "add_days s w = Inr (s + w)"
proof (cases "add_days s w")
  case (Inl e)
  with assms show ?thesis by simp
next
  case (Inr en)
  with add_days_Inr [OF Inr] show ?thesis by simp
qed

lemma build_events_skip:
  "add_days s w = Inr (s + w) \<Longrightarrow> dropped w rsd t wk s \<Longrightarrow>
     build_events w rsd t wk [] (s # ss) = build_events w rsd t wk [] ss"
  by (auto simp add: dropped_def Let_def)

lemma build_events_emit:
  assumes "\<not> dropped w rsd t wk s"
    and "build_events w rsd t wk [] (s # ss) = Inr evs"
  shows "\<exists>e es. evs = e # es \<and> build_events w rsd t wk [] ss = Inr es
           \<and> event_date e = s \<and> emitted_from w rsd t wk e"
proof -
  let ?win = "loc_slice wk s (s + w)"
  note en = build_events_days [OF assms(2)]
  from assms(1) have nd: "?win \<noteq> []" "\<not> (rsd \<and> 1 < n_sig_of t ?win)"
    by (auto simp add: dropped_def)
  obtain pk where pk: "idxmax ?win = Inr pk"
    using assms(2) nd en by (cases "idxmax ?win") (auto simp add: Let_def)
  obtain pr where pr: "loc_at ?win pk = Inr pr"
    using assms(2) nd en pk by (cases "loc_at ?win pk") (auto simp add: Let_def)
  obtain sr where sr: "loc_at wk s = Inr sr"
    using assms(2) nd en pk pr by (cases "loc_at wk s") (auto simp add: Let_def)
  define ev where "ev = \<lparr>event_date = s, peak_date = pk, lag_days = pk - s,
    peak_discharge = discharge pr, rain_amount = precip sr,
    n_sig_days_in_window = n_sig_of t ?win\<rparr>"
  have "build_events w rsd t wk [] (s # ss) = build_events w rsd t wk [ev] ss"
    using nd en pk pr sr by (auto simp add: Let_def ev_def)
  with assms(2) have "build_events w rsd t wk [ev] ss = Inr evs" by simp
  then obtain es where es: "build_events w rsd t wk [] ss = Inr es" "evs = ev # es"
    using build_events_acc [of w rsd t wk "[ev]" ss] by (auto split: sum.splits)
  have "emitted_from w rsd t wk ev"
    using nd pk pr sr by (auto simp add: emitted_from_def ev_def)
  moreover have "event_date ev = s" by (simp add: ev_def)
  ultimately show ?thesis using es by blast
qed

lemma build_events_sound:
  "build_events w rsd t wk [] ss = Inr evs \<Longrightarrow> e \<in> set evs \<Longrightarrow>
     event_date e \<in> set ss \<and> emitted_from w rsd t wk e"
proof (induction ss arbitrary: evs)
  case Nil
  then show ?case by simp
next
  case (Cons s ss)
  show ?case
  proof (cases "dropped w rsd t wk s")
    case True
    with Cons.prems(1) have "build_events w rsd t wk [] ss = Inr evs"
      using build_events_skip [OF build_events_days [OF Cons.prems(1)] True] by simp
    from Cons.IH [OF this Cons.prems(2)] show ?thesis by simp
  next
    case False
    from build_events_emit [OF False Cons.prems(1)] obtain e' es where
      h: "evs = e' # es" "build_events w rsd t wk [] ss = Inr es"
         "event_date e' = s" "emitted_from w rsd t wk e'" by blast
    from Cons.prems(2) h(1) have "e = e' \<or> e \<in> set es" by simp
    then show ?thesis
    proof
      assume "e = e'"
      with h show ?thesis by simp
    next
      assume "e \<in> set es"
      from Cons.IH [OF h(2) this] show ?thesis by simp
    qed
  qed
qed

lemma build_events_dates:
  "build_events w rsd t wk [] ss = Inr evs \<Longrightarrow>
     map event_date evs = filter (\<lambda>s. \<not> dropped w rsd t wk s) ss"
proof (induction ss arbitrary: evs)
  case Nil
  then show ?case by simp
next
  case (Cons s ss)
  show ?case
  proof (cases "dropped w rsd t wk s")
    case True
    with Cons.prems have "build_events w rsd t wk [] ss = Inr evs"
      using build_events_skip [OF build_events_days [OF Cons.prems] True] by simp
    from Cons.IH [OF this] True show ?thesis by simp
  next
    case False
    from build_events_emit [OF False Cons.prems] obtain e' es where
      h: "evs = e' # es" "build_events w rsd t wk [] ss = Inr es" "event_date e' = s" by blast
    from Cons.IH [OF h(2)] h(1,3) False show ?thesis by simp
  qed
qed

text \<open>The second loop on a start whose window end is out of range, and on one whose
  window end is in range.\<close>

lemma build_events_cases:
  assumes "s \<in> date ` set wk"
  shows "(\<exists>e. add_days s w = Inl e \<and> build_events w rsd t wk [] (s # ss) = Inl e)
         \<or> (add_days s w = Inr (s + w)
            \<and> (build_events w rsd t wk [] (s # ss) = build_events w rsd t wk [] ss
               \<or> (\<exists>ev. build_events w rsd t wk [] (s # ss) = build_events w rsd t wk [ev] ss)))"
proof (cases "add_days s w")
  case (Inl e)
  then show ?thesis by simp
next
  case (Inr en)
  with add_days_Inr [OF Inr] have en: "add_days s w = Inr (s + w)" by simp
  show ?thesis
  proof (cases "dropped w rsd t wk s")
    case True
    from build_events_skip [OF en True] en show ?thesis by simp
  next
    case False
    let ?win = "loc_slice wk s (s + w)"
    from False have nd: "?win \<noteq> []" "\<not> (rsd \<and> 1 < n_sig_of t ?win)"
      by (auto simp add: dropped_def)
    obtain pk where pk: "idxmax ?win = Inr pk" using idxmax_total [OF nd(1)] by blast
    obtain pr where pr: "loc_at ?win pk = Inr pr"
      using loc_at_total [OF idxmax_mem [OF pk]] by blast
    obtain sr where sr: "loc_at wk s = Inr sr" using loc_at_total [OF assms] by blast
    define ev where "ev = \<lparr>event_date = s, peak_date = pk, lag_days = pk - s,
      peak_discharge = discharge pr, rain_amount = precip sr,
      n_sig_days_in_window = n_sig_of t ?win\<rparr>"
    have "build_events w rsd t wk [] (s # ss) = build_events w rsd t wk [ev] ss"
      using nd en pk pr sr by (auto simp add: Let_def ev_def)
    with en show ?thesis by blast
  qed
qed

lemma build_events_total:
  "set ss \<subseteq> date ` set wk \<Longrightarrow> days_fit w \<Longrightarrow> \<forall>s \<in> set ss. days_fit (s + w) \<Longrightarrow>
     \<exists>evs. build_events w rsd t wk [] ss = Inr evs"
proof (induction ss)
  case Nil
  then show ?case by simp
next
  case (Cons s ss)
  then obtain es where es: "build_events w rsd t wk [] ss = Inr es" by auto
  from Cons.prems have s: "s \<in> date ` set wk" and en: "add_days s w = Inr (s + w)"
    by (simp_all add: add_days_fit)
  from build_events_cases [OF s, of w rsd t ss] en have
    "build_events w rsd t wk [] (s # ss) = build_events w rsd t wk [] ss
     \<or> (\<exists>ev. build_events w rsd t wk [] (s # ss) = build_events w rsd t wk [ev] ss)"
    by auto
  then show ?case
  proof (elim disjE exE)
    assume "build_events w rsd t wk [] (s # ss) = build_events w rsd t wk [] ss"
    with es show ?thesis by simp
  next
    fix ev
    assume "build_events w rsd t wk [] (s # ss) = build_events w rsd t wk [ev] ss"
    with es build_events_acc [of w rsd t wk "[ev]" ss] show ?thesis by simp
  qed
qed

lemma build_events_Inl:
  "set ss \<subseteq> date ` set wk \<Longrightarrow> build_events w rsd t wk [] ss = Inl e \<Longrightarrow>
     e = OutOfBoundsTimedelta \<or> e = OutOfBoundsDatetime"
proof (induction ss)
  case Nil
  then show ?case by simp
next
  case (Cons s ss)
  from Cons.prems(1) have s: "s \<in> date ` set wk" and sub: "set ss \<subseteq> date ` set wk" by simp_all
  from build_events_cases [OF s, of w rsd t ss] show ?case
  proof (elim disjE conjE exE)
    fix e'
    assume "add_days s w = Inl e'" "build_events w rsd t wk [] (s # ss) = Inl e'"
    with Cons.prems(2) add_days_Inl [of s w e'] show ?thesis by simp
  next
    assume "build_events w rsd t wk [] (s # ss) = build_events w rsd t wk [] ss"
    with Cons.prems(2) Cons.IH [OF sub] show ?thesis by simp
  next
    fix ev
    assume "build_events w rsd t wk [] (s # ss) = build_events w rsd t wk [ev] ss"
    with Cons.prems(2) have "build_events w rsd t wk [ev] ss = Inl e" by simp
    then have "build_events w rsd t wk [] ss = Inl e"
      using build_events_acc [of w rsd t wk "[ev]" ss] by (simp split: sum.splits)
    from Cons.IH [OF sub this] show ?thesis .
  qed
qed

section \<open>Properties of the function\<close>

lemma find_events_and_lags_Inr:
  assumes "find_events_and_lags df q g w rsd = Inr (evs, t)"
  shows "threshold_of (dropna df) q = Inr t"
    and "\<exists>ss. event_starts_of (dropna df) t g = Inr ss
              \<and> build_events w rsd t (dropna df) [] ss = Inr evs"
  using assms by (auto simp add: find_events_and_lags_def Let_def split: sum.splits)

lemma event_starts_rows:
  "event_starts_of wk t g = Inr ss \<Longrightarrow> s \<in> set ss \<Longrightarrow>
     \<exists>r \<in> set wk. date r = s \<and> float_ge (Some (precip r)) t"
  unfolding event_starts_of_def by (rule scan_starts_mem)

lemma event_starts_dates: "event_starts_of wk t g = Inr ss \<Longrightarrow> set ss \<subseteq> date ` set wk"
  using event_starts_rows [of wk t g ss] by auto

lemma emitted_event:
  assumes "find_events_and_lags df q g w rsd = Inr (evs, t)" and "e \<in> set evs"
  shows "\<exists>r \<in> set (dropna df). date r = event_date e \<and> float_ge (Some (precip r)) t"
    and "emitted_from w rsd t (dropna df) e"
proof -
  from find_events_and_lags_Inr(2) [OF assms(1)] obtain ss where
    ss: "event_starts_of (dropna df) t g = Inr ss"
    and b: "build_events w rsd t (dropna df) [] ss = Inr evs" by blast
  from build_events_sound [OF b assms(2)] have
    m: "event_date e \<in> set ss" and em: "emitted_from w rsd t (dropna df) e" by simp_all
  from event_starts_rows [OF ss m]
  show "\<exists>r \<in> set (dropna df). date r = event_date e \<and> float_ge (Some (precip r)) t" .
  from em show "emitted_from w rsd t (dropna df) e" .
qed

lemma valid_input_working:
  "valid_input df q g w \<Longrightarrow> sorted_wrt (<) (map date (dropna df))"
  by (simp add: valid_input_def dropna_sorted)

lemma n_sig_of_pos:
  "r \<in> set win \<Longrightarrow> float_ge (Some (precip r)) t \<Longrightarrow> 0 < n_sig_of t win"
  by (auto simp add: n_sig_of_def filter_empty_conv)

lemma no_positive_run:
  assumes "\<forall>r \<in> set (dropna df). \<not> 0 < precip r" and "0 \<le> q" and "q \<le> 1"
  shows "find_events_and_lags df q g w rsd = Inr ([], None)"
proof -
  from assms(1) have "filter (\<lambda>r. 0 < precip r) (dropna df) = []"
    by (simp add: filter_empty_conv)
  with assms(2,3) have "threshold_of (dropna df) q = Inr None"
    by (simp add: threshold_of_def quantile_def)
  then show ?thesis
    by (simp add: find_events_and_lags_def event_starts_of_def scan_starts_nan)
qed

lemma quantile_total: "0 \<le> q \<Longrightarrow> q \<le> 1 \<Longrightarrow> \<exists>t. quantile xs q = Inr t"
  by (cases "xs = []") (simp_all add: quantile_def Let_def)

lemma days_in_range_working:
  assumes "days_in_range df g w" and "r \<in> set (dropna df)"
  shows "days_fit (date r + g)" and "days_fit (date r + w)"
proof -
  from assms(2) dropna_dates_subset [of df] obtain x where x: "x \<in> set df" "idx x = date r"
    by auto
  from assms(1) x(1) have "days_fit (idx x + g)" "days_fit (idx x + w)"
    by (simp_all add: days_in_range_def list_all_iff)
  with x(2) show "days_fit (date r + g)" and "days_fit (date r + w)" by simp_all
qed

lemma find_events_and_lags_total:
  assumes "0 \<le> q" and "q \<le> 1" and "days_in_range df g w"
  shows "\<exists>events threshold. find_events_and_lags df q g w rsd = Inr (events, threshold)"
proof -
  from quantile_total [OF assms(1,2)] obtain t where t: "threshold_of (dropna df) q = Inr t"
    unfolding threshold_of_def by blast
  from assms(3) have fit: "days_fit g" "days_fit w" by (simp_all add: days_in_range_def)
  have "\<forall>r \<in> set (dropna df). days_fit (date r + g)"
    using days_in_range_working(1) [OF assms(3)] by blast
  from scan_starts_total [OF fit(1) this] obtain ss where
    ss: "event_starts_of (dropna df) t g = Inr ss" unfolding event_starts_of_def by blast
  have "\<forall>s \<in> set ss. days_fit (s + w)"
    using event_starts_dates [OF ss] days_in_range_working(2) [OF assms(3)] by auto
  from build_events_total [OF event_starts_dates [OF ss] fit(2) this] obtain evs where
    "build_events w rsd t (dropna df) [] ss = Inr evs" by blast
  with t ss show ?thesis by (simp add: find_events_and_lags_def)
qed

lemma find_events_and_lags_Inl:
  assumes "0 \<le> q" and "q \<le> 1" and "find_events_and_lags df q g w rsd = Inl e"
  shows "e = OutOfBoundsTimedelta \<or> e = OutOfBoundsDatetime"
proof -
  from quantile_total [OF assms(1,2)] obtain t where t: "threshold_of (dropna df) q = Inr t"
    unfolding threshold_of_def by blast
  show ?thesis
  proof (cases "event_starts_of (dropna df) t g")
    case (Inl e')
    with t assms(3) have "e' = e" by (simp add: find_events_and_lags_def)
    with Inl show ?thesis using scan_starts_Inl unfolding event_starts_of_def by blast
  next
    case (Inr ss)
    with t assms(3) have "build_events w rsd t (dropna df) [] ss = Inl e"
      by (simp add: find_events_and_lags_def split: sum.splits)
    from build_events_Inl [OF event_starts_dates [OF Inr] this] show ?thesis .
  qed
qed

lemma bad_percentile:
  "q < 0 \<or> 1 < q \<Longrightarrow> find_events_and_lags df q g w rsd = Inl ValueError"
  by (auto simp add: find_events_and_lags_def threshold_of_def quantile_def)

lemma start_in_window:
  assumes "0 \<le> w" and "event_starts_of wk t g = Inr ss" and "s \<in> set ss"
  shows "\<exists>r \<in> set (loc_slice wk s (s + w)). date r = s"
proof -
  from event_starts_rows [OF assms(2,3)] obtain r where "r \<in> set wk" "date r = s" by blast
  with assms(1) have "r \<in> set (loc_slice wk s (s + w))" by (simp add: loc_slice_mem)
  with \<open>date r = s\<close> show ?thesis by blast
qed

subsection \<open>The function on the sample frames\<close>

lemmas run_simps =
  find_events_and_lags_def threshold_of_def quantile_def event_starts_of_def
  loc_slice_def n_sig_of_def Let_def add_days_def timedelta_days_def days_fit_def max_days_def

lemma frame_gap_valid: "valid_input frame_gap (1 / 2) 1 5"
  by (simp add: valid_input_def frame_gap_def)

lemma frame_gap_run:
  "find_events_and_lags frame_gap (1 / 2) 1 5 rsd = Inr ([event_day1, event_day20], Some 6)"
  by (simp add: run_simps frame_gap_def event_day1_def event_day20_def)

lemma frame_gap_starts: "event_starts_of (dropna frame_gap) (Some 6) 1 = Inr [1, 20]"
  by (simp add: run_simps frame_gap_def)

lemma frame_gap_overflow:
  "find_events_and_lags frame_gap (1 / 2) 200000 5 True = Inl OutOfBoundsTimedelta
   \<and> find_events_and_lags frame_gap (1 / 2) 1 106750 True = Inl OutOfBoundsDatetime"
  by (simp add: run_simps frame_gap_def)

lemma frame_twin_valid: "valid_input frame_twin (1 / 2) 1 5"
  by (simp add: valid_input_def frame_twin_def)

lemma frame_twin_run:
  "find_events_and_lags frame_twin (1 / 2) 1 5 True = Inr ([event_twin3], Some 9)"
  by (simp add: run_simps frame_twin_def event_twin3_def)

section \<open>The claims\<close>

subsection \<open>Empty input\<close>

text \<open>
  Claim C1, as amended. When no row is left after \<^verbatim>\<open>dropna\<close>, the function
  raises nothing (for a percentile in \<open>[0, 1]\<close>): the quantile of the empty series is
  NaN, both loops do nothing, and the result is the empty event table with a NaN
  threshold.
\<close>

theorem empty_input_returns:
  assumes "dropna df = []" and "0 \<le> q" and "q \<le> 1"
  shows "find_events_and_lags df q min_gap_days window_days require_single_day
           = Inr ([], None)"
  by (rule no_positive_run) (use assms in simp_all)

theorem empty_input_returns_witness:
  "dropna frame_missing = [] \<and> (0::real) \<le> 9 / 10 \<and> (9::real) / 10 \<le> 1
   \<and> find_events_and_lags frame_missing (9 / 10) 10 10 True = Inr ([], None)"
proof -
  have d: "dropna frame_missing = []" by (simp add: frame_missing_def)
  have q: "(0::real) \<le> 9 / 10" "(9::real) / 10 \<le> 1" by simp_all
  from empty_input_returns [OF d q] d q show ?thesis by blast
qed

text \<open>A frame whose only row has no precipitation value: the call returns a result.\<close>

theorem empty_input_no_error:
  "dropna frame_missing = []
   \<and> \<not> isl (find_events_and_lags frame_missing (9 / 10) 10 10 True)
   \<and> find_events_and_lags frame_missing (9 / 10) 10 10 True = Inr ([], None)"
  by (simp add: frame_missing_def find_events_and_lags_def threshold_of_def quantile_def
      event_starts_of_def)

subsection \<open>Parameter checks\<close>

text \<open>
  Claim C2, as amended. The function checks none of its parameters itself. On a frame
  in increasing date order, a percentile below 0 or above 1 is refused by the quantile
  routine with \<open>ValueError\<close>, whatever the rows hold, and that call precedes both
  loops. For a percentile in the closed interval \<open>[0, 1]\<close> the signs of
  \<open>min_gap_days\<close> and \<open>window_days\<close> are never a reason to fail: the function returns
  a result as soon as the date arithmetic of the two loops stays in range, and the only
  exceptions it can raise are the two out-of-bounds errors of that arithmetic.
\<close>

theorem percentile_is_the_only_check:
  assumes "sorted_wrt (<) (map idx df)"
  shows "(q < 0 \<or> 1 < q \<longrightarrow>
            find_events_and_lags df q min_gap_days window_days require_single_day
              = Inl ValueError)
         \<and> (0 \<le> q \<and> q \<le> 1 \<and> days_in_range df min_gap_days window_days \<longrightarrow>
              (\<exists>events threshold.
                 find_events_and_lags df q min_gap_days window_days require_single_day
                   = Inr (events, threshold)))
         \<and> (0 \<le> q \<and> q \<le> 1 \<longrightarrow>
              (\<forall>e. find_events_and_lags df q min_gap_days window_days require_single_day
                     = Inl e \<longrightarrow>
                   e = OutOfBoundsTimedelta \<or> e = OutOfBoundsDatetime))"
  using bad_percentile [of q df min_gap_days window_days require_single_day]
    find_events_and_lags_total [of q df min_gap_days window_days require_single_day]
    find_events_and_lags_Inl [of q df min_gap_days window_days require_single_day]
  by blast

theorem percentile_is_the_only_check_witness:
  "sorted_wrt (<) (map idx frame_gap)
   \<and> find_events_and_lags frame_gap (3 / 2) 1 5 True = Inl ValueError
   \<and> days_in_range frame_gap (- 1) (- 1)
   \<and> (\<exists>events threshold.
         find_events_and_lags frame_gap (1 / 2) (- 1) (- 1) True = Inr (events, threshold))
   \<and> find_events_and_lags frame_gap (1 / 2) 200000 5 True = Inl OutOfBoundsTimedelta"
proof -
  have s: "sorted_wrt (<) (map idx frame_gap)" by (simp add: frame_gap_def)
  have a: "(3::real) / 2 < 0 \<or> (1::real) < 3 / 2" by simp
  have b: "(0::real) \<le> 1 / 2 \<and> (1::real) / 2 \<le> 1" by simp
  have r: "days_in_range frame_gap (- 1) (- 1)"
    by (simp add: days_in_range_def days_fit_def max_days_def frame_gap_def)
  have o: "find_events_and_lags frame_gap (1 / 2) 200000 5 True = Inl OutOfBoundsTimedelta"
    by (simp add: run_simps frame_gap_def)
  from percentile_is_the_only_check [OF s, of "3 / 2" 1 5 True] a
  have 1: "find_events_and_lags frame_gap (3 / 2) 1 5 True = Inl ValueError" by blast
  from percentile_is_the_only_check [OF s, of "1 / 2" "- 1" "- 1" True] b r
  have 2: "\<exists>events threshold.
         find_events_and_lags frame_gap (1 / 2) (- 1) (- 1) True = Inr (events, threshold)"
    by blast
  from s 1 r 2 o show ?thesis by blast
qed

text \<open>A negative \<open>min_gap_days\<close>, a negative \<open>window_days\<close> and the percentile 1
  each give a result, not an exception.\<close>

theorem negative_days_accepted:
  "find_events_and_lags frame_gap (1 / 2) (- 1) 5 True
     = Inr ([event_day1, event_day20], Some 6)
   \<and> find_events_and_lags frame_gap (1 / 2) 1 (- 1) True = Inr ([], Some 6)
   \<and> find_events_and_lags frame_gap 1 1 5 True = Inr ([event_day20], Some 9)"
  by (simp add: run_simps frame_gap_def event_day1_def event_day20_def)

subsection \<open>Empty windows\<close>

text \<open>
  Claim C3, as amended. On a valid input on which the function returns, the window of
  every event start holds the row of the start itself, so the \<^verbatim>\<open>window.empty\<close>
  branch drops no start; without \<^verbatim>\<open>require_single_day\<close> the event table has
  one row for each event start, in the same order.
\<close>

theorem start_windows_never_empty:
  assumes "valid_input df q min_gap_days window_days"
    and "find_events_and_lags df q min_gap_days window_days require_single_day
           = Inr (events, threshold)"
  shows "\<exists>starts. event_starts_of (dropna df) threshold min_gap_days = Inr starts
           \<and> (\<forall>s \<in> set starts.
                 \<exists>r \<in> set (loc_slice (dropna df) s (s + window_days)). date r = s)
           \<and> (\<not> require_single_day \<longrightarrow> map event_date events = starts)"
proof -
  from find_events_and_lags_Inr(2) [OF assms(2)] obtain ss where
    ss: "event_starts_of (dropna df) threshold min_gap_days = Inr ss"
    and b: "build_events window_days require_single_day threshold (dropna df) [] ss = Inr events"
    by blast
  from assms(1) have w: "0 \<le> window_days" by (simp add: valid_input_def)
  have ne: "\<forall>s \<in> set ss. \<exists>r \<in> set (loc_slice (dropna df) s (s + window_days)). date r = s"
    using start_in_window [OF w ss] by blast
  have dates: "map event_date events
                 = filter (\<lambda>s. \<not> dropped window_days require_single_day threshold (dropna df) s) ss"
    by (rule build_events_dates [OF b])
  have "map event_date events = ss" if "\<not> require_single_day"
  proof -
    from ne have "\<forall>s \<in> set ss. loc_slice (dropna df) s (s + window_days) \<noteq> []" by auto
    with that have
      "\<forall>s \<in> set ss. \<not> dropped window_days require_single_day threshold (dropna df) s"
      by (simp add: dropped_def)
    then have
      "filter (\<lambda>s. \<not> dropped window_days require_single_day threshold (dropna df) s) ss = ss"
      by (simp add: filter_id_conv)
    with dates show ?thesis by simp
  qed
  with ss ne show ?thesis by blast
qed

theorem start_windows_never_empty_witness:
  "valid_input frame_gap (1 / 2) 1 5
   \<and> find_events_and_lags frame_gap (1 / 2) 1 5 False = Inr ([event_day1, event_day20], Some 6)
   \<and> event_starts_of (dropna frame_gap) (Some 6) 1 = Inr [1, 20]
   \<and> (\<exists>r \<in> set (loc_slice (dropna frame_gap) 20 (20 + 5)). date r = 20)
   \<and> map event_date [event_day1, event_day20] = [1, 20]"
proof -
  from start_windows_never_empty [OF frame_gap_valid frame_gap_run [of False]]
    frame_gap_valid frame_gap_run [of False] frame_gap_starts
  show ?thesis by simp
qed

text \<open>No valid input has an event start with an empty window.\<close>

theorem no_start_with_empty_window:
  "\<not> (\<exists>df q min_gap_days window_days threshold starts s.
         valid_input df q min_gap_days window_days \<and> dropna df \<noteq> []
         \<and> threshold_of (dropna df) q = Inr threshold
         \<and> event_starts_of (dropna df) threshold min_gap_days = Inr starts
         \<and> s \<in> set starts
         \<and> loc_slice (dropna df) s (s + window_days) = [])"
proof
  assume "\<exists>df q min_gap_days window_days threshold starts s.
         valid_input df q min_gap_days window_days \<and> dropna df \<noteq> []
         \<and> threshold_of (dropna df) q = Inr threshold
         \<and> event_starts_of (dropna df) threshold min_gap_days = Inr starts
         \<and> s \<in> set starts
         \<and> loc_slice (dropna df) s (s + window_days) = []"
  then obtain df q g w t ss s where
    v: "valid_input df q g w" and ss: "event_starts_of (dropna df) t g = Inr ss"
    and s: "s \<in> set ss" and e: "loc_slice (dropna df) s (s + w) = []" by blast
  from v have "0 \<le> w" by (simp add: valid_input_def)
  from start_in_window [OF this ss s] e show False by simp
qed

subsection \<open>Separation of the event starts\<close>

text \<open>
  Claim C4. On a valid input, two consecutive entries of the list \<^verbatim>\<open>event_starts\<close>
  that the scan returns are more than \<open>min_gap_days\<close> days apart, and the list is
  strictly increasing. The list is the one the scan itself builds with its
  \<^verbatim>\<open>skip_until\<close> cursor; nothing filters it afterwards.
\<close>

theorem event_starts_separated:
  assumes "valid_input df q min_gap_days window_days"
    and "threshold_of (dropna df) q = Inr threshold"
    and "event_starts_of (dropna df) threshold min_gap_days = Inr starts"
  shows "(\<forall>i. Suc i < length starts \<longrightarrow> min_gap_days < starts ! Suc i - starts ! i)
         \<and> sorted_wrt (<) starts"
proof -
  from assms(1) have g: "0 \<le> min_gap_days" by (simp add: valid_input_def)
  have succ: "successively (\<lambda>a b. min_gap_days < b - a) starts"
    using assms(3) unfolding event_starts_of_def by (rule scan_starts_successively [OF g])
  have gaps: "\<forall>i. Suc i < length starts \<longrightarrow> min_gap_days < starts ! Suc i - starts ! i"
    using successively_nth [OF succ] by blast
  have "successively (<) starts"
  proof (rule successively_mono [OF succ])
    fix a b :: int
    assume "min_gap_days < b - a"
    with g show "a < b" by linarith
  qed
  then have "sorted_wrt (<) starts"
    by (simp add: successively_conv_sorted_wrt)
  with gaps show ?thesis by blast
qed

theorem event_starts_separated_witness:
  "valid_input frame_gap (1 / 2) 1 5
   \<and> threshold_of (dropna frame_gap) (1 / 2) = Inr (Some 6)
   \<and> event_starts_of (dropna frame_gap) (Some 6) 1 = Inr [1, 20]
   \<and> (1::int) < [1, 20] ! Suc 0 - [1, 20] ! 0
   \<and> sorted_wrt (<) [1, 20 :: int]"
proof -
  have t: "threshold_of (dropna frame_gap) (1 / 2) = Inr (Some 6)"
    by (simp add: threshold_of_def quantile_def frame_gap_def)
  have l: "Suc 0 < length [1, 20 :: int]" by simp
  from event_starts_separated [OF frame_gap_valid t frame_gap_starts] l
    frame_gap_valid t frame_gap_starts
  show ?thesis by blast
qed

subsection \<open>Events under the single-day rule\<close>

text \<open>
  Claim C5. On a valid input with \<^verbatim>\<open>require_single_day\<close> set, every emitted
  event has \<^verbatim>\<open>n_sig_days_in_window\<close> equal to 1, and exactly one row of the filtered
  frame has its date between \<open>event_date\<close> and \<open>event_date + window_days\<close> and a
  precipitation that reaches the threshold (the start day itself). The count is written
  out on the rows of the frame, not through the function's own counter.
\<close>

theorem single_day_events:
  assumes "valid_input df q min_gap_days window_days"
    and "find_events_and_lags df q min_gap_days window_days True = Inr (events, threshold)"
    and "e \<in> set events"
  shows "n_sig_days_in_window e = 1
         \<and> (\<exists>t. threshold = Some t
                \<and> length (filter (\<lambda>r. (event_date e \<le> date r
                                          \<and> date r \<le> event_date e + window_days)
                                         \<and> t \<le> precip r)
                            (dropna df)) = 1)"
proof -
  let ?win = "loc_slice (dropna df) (event_date e) (event_date e + window_days)"
  from assms(1) have w: "0 \<le> window_days" by (simp add: valid_input_def)
  from emitted_event(2) [OF assms(2,3)] have
    n: "n_sig_days_in_window e = n_sig_of threshold ?win" and le: "\<not> 1 < n_sig_days_in_window e"
    by (simp_all add: emitted_from_def Let_def)
  from emitted_event(1) [OF assms(2,3)] obtain r where
    r: "r \<in> set (dropna df)" "date r = event_date e" "float_ge (Some (precip r)) threshold"
    by blast
  from r(3) obtain t where t: "threshold = Some t" by (cases threshold) simp_all
  from r(1,2) w have "r \<in> set ?win" by (simp add: loc_slice_mem)
  from n_sig_of_pos [OF this r(3)] have "0 < n_sig_of threshold ?win" .
  with n le have one: "n_sig_days_in_window e = 1" by simp
  have "n_sig_of threshold ?win
          = length (filter (\<lambda>r. (event_date e \<le> date r
                                    \<and> date r \<le> event_date e + window_days)
                                   \<and> t \<le> precip r)
                      (dropna df))"
    by (simp add: n_sig_of_def loc_slice_def t)
  with n one t show ?thesis by simp
qed

theorem single_day_events_witness:
  "valid_input frame_twin (1 / 2) 1 5
   \<and> find_events_and_lags frame_twin (1 / 2) 1 5 True = Inr ([event_twin3], Some 9)
   \<and> n_sig_days_in_window event_twin3 = 1
   \<and> length (filter (\<lambda>r. (3 \<le> date r \<and> date r \<le> 3 + 5) \<and> 9 \<le> precip r)
               (dropna frame_twin)) = 1"
proof -
  have m: "event_twin3 \<in> set [event_twin3]" by simp
  have d: "event_date event_twin3 = 3" by (simp add: event_twin3_def)
  from single_day_events [OF frame_twin_valid frame_twin_run m] d
    frame_twin_valid frame_twin_run
  show ?thesis by simp
qed

subsection \<open>Lag within the window\<close>

text \<open>
  Claim C6. On a valid input, every emitted event has a non-negative \<open>lag_days\<close> and
  its \<open>peak_date\<close> lies between \<open>event_date\<close> and \<open>event_date + window_days\<close>.
\<close>

theorem lag_within_window:
  assumes "valid_input df q min_gap_days window_days"
    and "find_events_and_lags df q min_gap_days window_days require_single_day
           = Inr (events, threshold)"
    and "e \<in> set events"
  shows "0 \<le> lag_days e \<and> event_date e \<le> peak_date e
         \<and> peak_date e \<le> event_date e + window_days"
proof -
  let ?win = "loc_slice (dropna df) (event_date e) (event_date e + window_days)"
  from emitted_event(2) [OF assms(2,3)] have
    pk: "idxmax ?win = Inr (peak_date e)" and lag: "lag_days e = peak_date e - event_date e"
    by (simp_all add: emitted_from_def Let_def)
  from idxmax_mem [OF pk] obtain m where "m \<in> set ?win" "date m = peak_date e" by auto
  then have "event_date e \<le> peak_date e \<and> peak_date e \<le> event_date e + window_days"
    by (auto simp add: loc_slice_mem)
  with lag show ?thesis by simp
qed

theorem lag_within_window_witness:
  "valid_input frame_gap (1 / 2) 1 5
   \<and> find_events_and_lags frame_gap (1 / 2) 1 5 True = Inr ([event_day1, event_day20], Some 6)
   \<and> 0 \<le> lag_days event_day1 \<and> event_date event_day1 \<le> peak_date event_day1
   \<and> peak_date event_day1 \<le> event_date event_day1 + 5"
proof -
  have m: "event_day1 \<in> set [event_day1, event_day20]" by simp
  from lag_within_window [OF frame_gap_valid frame_gap_run m] frame_gap_valid frame_gap_run
  show ?thesis by blast
qed

subsection \<open>The peak is the first maximum\<close>

text \<open>
  Claim C7. On a valid input, the \<open>peak_date\<close> of every emitted event is the date of a
  row of the window whose discharge is the largest of the window (and is the event's
  \<open>peak_discharge\<close>); every row of the window with that same discharge has a date no
  earlier than \<open>peak_date\<close>.
\<close>

theorem peak_is_first_maximum:
  assumes "valid_input df q min_gap_days window_days"
    and "find_events_and_lags df q min_gap_days window_days require_single_day
           = Inr (events, threshold)"
    and "e \<in> set events"
  shows "\<exists>m \<in> set (loc_slice (dropna df) (event_date e) (event_date e + window_days)).
           date m = peak_date e \<and> discharge m = peak_discharge e
           \<and> (\<forall>r \<in> set (loc_slice (dropna df) (event_date e) (event_date e + window_days)).
                 discharge r \<le> discharge m
                 \<and> (discharge r = discharge m \<longrightarrow> peak_date e \<le> date r))"
proof -
  let ?win = "loc_slice (dropna df) (event_date e) (event_date e + window_days)"
  have srt: "sorted_wrt (<) (map date ?win)"
    by (rule loc_slice_sorted [OF valid_input_working [OF assms(1)]])
  from emitted_event(2) [OF assms(2,3)] obtain pr where
    pk: "idxmax ?win = Inr (peak_date e)" and
    pr: "loc_at ?win (peak_date e) = Inr pr" "peak_discharge e = discharge pr"
    by (auto simp add: emitted_from_def Let_def)
  from idxmax_row [OF pk] srt obtain m where
    m: "m \<in> set ?win" "date m = peak_date e"
       "\<forall>x \<in> set ?win. discharge x \<le> discharge m"
       "\<forall>x \<in> set ?win. discharge x = discharge m \<longrightarrow> peak_date e \<le> date x"
    by blast
  from loc_at_Inr [OF pr(1)] have "pr \<in> set ?win" "date pr = peak_date e" by simp_all
  with m(1,2) have "pr = m" using sorted_dates_inj [OF srt] by simp
  with pr(2) have "discharge m = peak_discharge e" by simp
  with m show ?thesis by blast
qed

theorem peak_is_first_maximum_witness:
  "valid_input frame_gap (1 / 2) 1 5
   \<and> find_events_and_lags frame_gap (1 / 2) 1 5 True = Inr ([event_day1, event_day20], Some 6)
   \<and> (\<exists>m \<in> set (loc_slice (dropna frame_gap) 1 (1 + 5)).
          date m = 2 \<and> discharge m = 7
          \<and> (\<forall>r \<in> set (loc_slice (dropna frame_gap) 1 (1 + 5)).
                discharge r \<le> discharge m \<and> (discharge r = discharge m \<longrightarrow> 2 \<le> date r)))"
proof -
  have m: "event_day1 \<in> set [event_day1, event_day20]" by simp
  have "event_date event_day1 = 1" "peak_date event_day1 = 2" "peak_discharge event_day1 = 7"
    by (simp_all add: event_day1_def)
  with peak_is_first_maximum [OF frame_gap_valid frame_gap_run m] frame_gap_valid frame_gap_run
  show ?thesis by simp
qed

subsection \<open>The start day of an event\<close>

text \<open>
  Claim C8. On a valid input, the frame has a row for the \<open>event_date\<close> of every
  emitted event; the precipitation of that row reaches the threshold and is the event's
  \<open>rain_amount\<close>.
\<close>

theorem event_date_significant:
  assumes "valid_input df q min_gap_days window_days"
    and "find_events_and_lags df q min_gap_days window_days require_single_day
           = Inr (events, threshold)"
    and "e \<in> set events"
  shows "(\<exists>r \<in> set (dropna df). date r = event_date e)
         \<and> (\<forall>r \<in> set (dropna df). date r = event_date e \<longrightarrow>
                float_ge (Some (precip r)) threshold \<and> rain_amount e = precip r)"
proof -
  have srt: "sorted_wrt (<) (map date (dropna df))" by (rule valid_input_working [OF assms(1)])
  from emitted_event(1) [OF assms(2,3)] obtain r where
    r: "r \<in> set (dropna df)" "date r = event_date e" "float_ge (Some (precip r)) threshold"
    by blast
  from emitted_event(2) [OF assms(2,3)] obtain sr where
    sr: "loc_at (dropna df) (event_date e) = Inr sr" "rain_amount e = precip sr"
    by (auto simp add: emitted_from_def Let_def)
  from loc_at_Inr [OF sr(1)] have sr': "sr \<in> set (dropna df)" "date sr = event_date e" by simp_all
  have uniq: "x = r" if "x \<in> set (dropna df)" "date x = event_date e" for x
    using sorted_dates_inj [OF srt that(1) r(1)] that(2) r(2) by simp
  from uniq [OF sr'] sr(2) have "rain_amount e = precip r" by simp
  with r uniq show ?thesis by blast
qed

theorem event_date_significant_witness:
  "valid_input frame_gap (1 / 2) 1 5
   \<and> find_events_and_lags frame_gap (1 / 2) 1 5 True = Inr ([event_day1, event_day20], Some 6)
   \<and> \<lparr>date = 1, precip = 6, discharge = 3\<rparr> \<in> set (dropna frame_gap)
   \<and> float_ge (Some 6) (Some 6)
   \<and> rain_amount event_day1 = 6"
proof -
  have m: "event_day1 \<in> set [event_day1, event_day20]" by simp
  have r: "\<lparr>date = 1, precip = 6, discharge = 3\<rparr> \<in> set (dropna frame_gap)"
    by (simp add: frame_gap_def)
  have d: "date \<lparr>date = 1, precip = 6, discharge = 3\<rparr> = event_date event_day1"
    by (simp add: event_day1_def)
  from event_date_significant [OF frame_gap_valid frame_gap_run m] r d
  have "float_ge (Some (precip \<lparr>date = 1, precip = 6, discharge = 3\<rparr>)) (Some 6)
        \<and> rain_amount event_day1 = precip \<lparr>date = 1, precip = 6, discharge = 3\<rparr>"
    by blast
  with frame_gap_valid frame_gap_run [of True] r show ?thesis by simp
qed

subsection \<open>Monotonicity of the threshold\<close>

text \<open>
  Claim C9, as amended. On a valid input with at least one strictly positive
  precipitation value, the threshold the function returns for \<open>q1\<close> is at most the one
  it returns for \<open>q2\<close> whenever \<open>q1 \<le> q2\<close>. (The values are exact reals here; the
  rounding of the interpolation is not modelled.)
\<close>

theorem threshold_monotone:
  assumes "valid_input df q1 min_gap_days window_days"
    and "valid_input df q2 min_gap_days window_days"
    and "q1 \<le> q2"
    and "\<exists>r \<in> set (dropna df). 0 < precip r"
    and "find_events_and_lags df q1 min_gap_days window_days require_single_day
           = Inr (events1, threshold1)"
    and "find_events_and_lags df q2 min_gap_days window_days require_single_day
           = Inr (events2, threshold2)"
  shows "float_le threshold1 threshold2"
proof -
  let ?xs = "map precip (filter (\<lambda>r. 0 < precip r) (dropna df))"
  from assms(4) have ne: "?xs \<noteq> []" by (simp add: filter_empty_conv)
  from assms(1,2) have q: "0 \<le> q1" "q2 \<le> 1" by (simp_all add: valid_input_def)
  from quantile_mono [OF ne q(1) assms(3) q(2)] obtain t1 t2 where
    t: "threshold_of (dropna df) q1 = Inr (Some t1)" "threshold_of (dropna df) q2 = Inr (Some t2)"
       "t1 \<le> t2"
    unfolding threshold_of_def by blast
  from find_events_and_lags_Inr(1) [OF assms(5)] t(1) have x1: "threshold1 = Some t1" by simp
  from find_events_and_lags_Inr(1) [OF assms(6)] t(2) have x2: "threshold2 = Some t2" by simp
  from t(3) show ?thesis by (simp add: float_le_def x1 x2)
qed

theorem threshold_monotone_witness:
  "valid_input frame_gap (1 / 4) 1 5 \<and> valid_input frame_gap (1 / 2) 1 5
   \<and> (1::real) / 4 \<le> 1 / 2
   \<and> (\<exists>r \<in> set (dropna frame_gap). 0 < precip r)
   \<and> find_events_and_lags frame_gap (1 / 4) 1 5 True
       = Inr ([event_day1, event_day20], Some (7 / 2))
   \<and> find_events_and_lags frame_gap (1 / 2) 1 5 True
       = Inr ([event_day1, event_day20], Some 6)
   \<and> float_le (Some (7 / 2)) (Some 6)"
proof -
  have v1: "valid_input frame_gap (1 / 4) 1 5" by (simp add: valid_input_def frame_gap_def)
  have le: "(1::real) / 4 \<le> 1 / 2" by simp
  have p: "\<exists>r \<in> set (dropna frame_gap). 0 < precip r" by (simp add: frame_gap_def)
  have r1: "find_events_and_lags frame_gap (1 / 4) 1 5 True
              = Inr ([event_day1, event_day20], Some (7 / 2))"
    by (simp add: run_simps frame_gap_def event_day1_def event_day20_def)
  from threshold_monotone [OF v1 frame_gap_valid le p r1 frame_gap_run [of True]]
    v1 frame_gap_valid le p r1 frame_gap_run [of True]
  show ?thesis by blast
qed

text \<open>Without a positive precipitation value both thresholds are NaN, and NaN is not
  below or equal to NaN.\<close>

theorem threshold_nan_unordered:
  "valid_input frame_dry (1 / 2) 10 10 \<and> valid_input frame_dry (9 / 10) 10 10
   \<and> (1::real) / 2 \<le> 9 / 10
   \<and> find_events_and_lags frame_dry (1 / 2) 10 10 True = Inr ([], None)
   \<and> find_events_and_lags frame_dry (9 / 10) 10 10 True = Inr ([], None)
   \<and> \<not> float_le None None"
  by (simp add: valid_input_def frame_dry_def find_events_and_lags_def threshold_of_def
      quantile_def event_starts_of_def float_le_def)

subsection \<open>No positive precipitation\<close>

text \<open>
  Claim C10. On a valid input that keeps at least one row but has no strictly positive
  precipitation, the function raises nothing and returns the empty event table with a
  NaN threshold: the quantile is taken over no value and no precipitation compares
  \<open>\<ge>\<close> to NaN.
\<close>

theorem no_positive_precipitation:
  assumes "valid_input df q min_gap_days window_days"
    and "dropna df \<noteq> []"
    and "\<forall>r \<in> set (dropna df). \<not> 0 < precip r"
  shows "find_events_and_lags df q min_gap_days window_days require_single_day
           = Inr ([], None)"
  by (rule no_positive_run [OF assms(3)]) (use assms(1) in \<open>simp_all add: valid_input_def\<close>)

theorem no_positive_precipitation_witness:
  "valid_input frame_dry (9 / 10) 10 10 \<and> dropna frame_dry \<noteq> []
   \<and> list_all (\<lambda>r. \<not> 0 < precip r) (dropna frame_dry)
   \<and> find_events_and_lags frame_dry (9 / 10) 10 10 True = Inr ([], None)"
proof -
  have v: "valid_input frame_dry (9 / 10) 10 10" by (simp add: valid_input_def frame_dry_def)
  have n: "dropna frame_dry \<noteq> []" by (simp add: frame_dry_def)
  have z: "\<forall>r \<in> set (dropna frame_dry). \<not> 0 < precip r" by (simp add: frame_dry_def)
  from no_positive_precipitation [OF v n z] v n z show ?thesis by (simp add: list_all_iff)
qed

end
